theory Spec2Isabelle
  imports Main
begin

section \<open>The resource pool of pool.go\<close>

text \<open>
  The pool is a struct guarded by a reader-writer lock; its methods are run by many
  goroutines. Every access to the struct's fields and to the channel \<open>srcs\<close> happens
  inside a critical section of that lock. The model therefore has two layers:
  \<^item> one HOL function per critical section of the source, from the state of the struct
    before the section to its state after it;
  \<^item> a step function on a world made of the struct, the program points of the
    goroutines that are inside \<open>Call\<close>, and the program point of the reaper goroutine.
    One step is one critical section, or one call of external code (the factory, the
    callback, a method of a resource).

  A critical section under the exclusive lock is one step, because no other goroutine
  reads or writes the struct or the channel meanwhile. The first critical section of
  \<open>Call\<close>, under the read lock, is one step as well: it reads \<open>released\<close>, which only
  changes under the exclusive lock, and does one receive that never waits. Waiting is
  not a step: a goroutine that waits for the lock, or for room in the channel, is one
  whose action is not enabled. (\<open>sync.RWMutex\<close> also keeps new readers out while a
  writer waits; this only removes schedules.) A critical section that blocks on the
  channel while it holds the exclusive lock blocks for ever, since every other channel
  operation of the program needs the lock.

  A resource (\<open>Src\<close>) is a pointer in the source, hence an address here. The factory,
  the callback and the methods of a resource are external code: what they answer is a
  parameter of the step that calls them, and the call is recorded in the ghost field
  \<open>events\<close>. External code is taken to return (or, for the callback, to panic with a
  non-nil value) without touching the pool. Go's \<open>int\<close> is modelled as \<open>int\<close>: the
  code only adds one to \<open>len\<close> below \<open>capacity\<close>, and its differences stay within
  the range of a machine integer for every configuration of sensible size.
\<close>

subsection \<open>Data\<close>

type_synonym src = nat

datatype error = releasedError | Err string | Errorf string

datatype event =
    Factory_ret "error + src"
  | Src_IsUsable src
  | Src_Reset src
  | Src_Release src
  | Callback_on src
  | Chan_send src

record classic =
  srcs :: "src list"
  srcs_closed :: bool
  capacity :: int
  maxIdle :: int
  len :: int
  released :: bool
  writer :: bool
  readers :: nat
  events :: "event list"

text \<open>
  \<open>srcs\<close> is the content of the buffered channel, oldest first, and \<open>srcs_closed\<close>
  says whether \<open>close\<close> was called on it; the channel's buffer has \<open>capacity\<close> slots.
  \<open>writer\<close> and \<open>readers\<close> are the state of the embedded \<open>sync.RWMutex\<close>.
  The fields \<open>factory\<close> and \<open>gctime\<close> are never written after construction: the
  factory's answers are parameters, and time is not modelled.
\<close>

datatype 'a result = Returns 'a classic | Blocks classic | Panics classic

text \<open>
  A critical section either returns, or blocks for ever on a channel operation while
  it holds the lock, or panics (deferred unlocks have run in the state it carries).
\<close>

subsection \<open>The lock and the channel\<close>

definition Lock :: "classic \<Rightarrow> classic" where
  "Lock p = p\<lparr>writer := True\<rparr>"

definition Unlock :: "classic \<Rightarrow> classic" where
  "Unlock p = p\<lparr>writer := False\<rparr>"

definition RLock :: "classic \<Rightarrow> classic" where
  "RLock p = p\<lparr>readers := readers p + 1\<rparr>"

definition RUnlock :: "classic \<Rightarrow> classic" where
  "RUnlock p = p\<lparr>readers := readers p - 1\<rparr>"

definition can_Lock :: "classic \<Rightarrow> bool" where
  "can_Lock p = (\<not> writer p \<and> readers p = 0)"

definition can_RLock :: "classic \<Rightarrow> bool" where
  "can_RLock p = (\<not> writer p)"

definition emit :: "event \<Rightarrow> classic \<Rightarrow> classic" where
  "emit e p = p\<lparr>events := events p @ [e]\<rparr>"

datatype recv_result = Received "src option" | Recv_blocks

text \<open>
  A receive takes the oldest buffered value; on an empty channel it yields the zero
  value (nil, \<open>None\<close>) when the channel is closed and cannot proceed otherwise.
\<close>

definition chan_recv :: "classic \<Rightarrow> recv_result \<times> classic" where
  "chan_recv p =
     (case srcs p of
        r # rest \<Rightarrow> (Received (Some r), p\<lparr>srcs := rest\<rparr>)
      | [] \<Rightarrow> (if srcs_closed p then (Received None, p) else (Recv_blocks, p)))"

datatype send_result = Sent | Send_blocks | Send_panics

text \<open>
  A send panics on a closed channel and cannot proceed while the buffer is full. With
  \<open>capacity = 0\<close> the channel has no buffer, and no send or receive of this program
  proceeds on it: the two would have to meet, and whenever one of them runs under the
  exclusive lock the other cannot run.
\<close>

definition chan_send :: "src \<Rightarrow> classic \<Rightarrow> send_result \<times> classic" where
  "chan_send r p =
     (if srcs_closed p then (Send_panics, p)
      else if int (length (srcs p)) < capacity p
        then (Sent, emit (Chan_send r) (p\<lparr>srcs := srcs p @ [r]\<rparr>))
      else (Send_blocks, p))"

subsection \<open>Release\<close>

text \<open>
  \<^verbatim>\<open>
  for i := len(self.srcs); i >= 0; i-- {
      (<-self.srcs).Release()
  }
  \<close>
  Calling \<open>Release\<close> on the nil value that a closed channel yields panics.
\<close>

function drain :: "int \<Rightarrow> classic \<Rightarrow> unit result" where
  "drain i p =
     (if i \<ge> 0 then
        (case chan_recv p of
           (Received (Some r), q) \<Rightarrow> drain (i - 1) (emit (Src_Release r) q)
         | (Received None, q) \<Rightarrow> Panics q
         | (Recv_blocks, q) \<Rightarrow> Blocks q)
      else Returns () p)"
  by pat_completeness auto
termination
  by (relation "measure (\<lambda>(i, p). nat (i + 1))") auto

declare drain.simps [simp del]

definition Release :: "classic \<Rightarrow> unit result" where
  "Release p0 =
     (let p = Lock p0 in
      if released p then Returns () (Unlock p)
      else
        (case drain (int (length (srcs p))) (p\<lparr>released := True\<rparr>) of
           Returns u q \<Rightarrow>
             (if srcs_closed q then Panics (Unlock q)
              else Returns () (Unlock (q\<lparr>srcs_closed := True, len := 0\<rparr>)))
         | Blocks q \<Rightarrow> Blocks q
         | Panics q \<Rightarrow> Panics (Unlock q)))"

subsection \<open>Len and isReleased\<close>

definition Len :: "classic \<Rightarrow> int" where
  "Len p = len p"

definition isReleased :: "classic \<Rightarrow> bool" where
  "isReleased p = released p"

subsection \<open>The reaper's pass\<close>

text \<open>
  \<^verbatim>\<open>
  extra := len(self.srcs) - self.maxIdle
  if extra > 0 {
      self.len -= extra
      for ; extra > 0; extra-- {
          (<-self.srcs).Release()
      }
  }
  \<close>
  The unlock of this section is not deferred: a panic leaves the lock held.
\<close>

function gc_loop :: "int \<Rightarrow> classic \<Rightarrow> unit result" where
  "gc_loop extra p =
     (if extra > 0 then
        (case chan_recv p of
           (Received (Some r), q) \<Rightarrow> gc_loop (extra - 1) (emit (Src_Release r) q)
         | (Received None, q) \<Rightarrow> Panics q
         | (Recv_blocks, q) \<Rightarrow> Blocks q)
      else Returns () p)"
  by pat_completeness auto
termination
  by (relation "measure (\<lambda>(extra, p). nat extra)") auto

declare gc_loop.simps [simp del]

definition gc :: "classic \<Rightarrow> unit result" where
  "gc p0 =
     (let p = Lock p0;
          extra = int (length (srcs p)) - maxIdle p
      in if extra > 0 then
           (case gc_loop extra (p\<lparr>len := len p - extra\<rparr>) of
              Returns u q \<Rightarrow> Returns () (Unlock q)
            | Blocks q \<Rightarrow> Blocks q
            | Panics q \<Rightarrow> Panics q)
         else Returns () (Unlock p))"

subsection \<open>incAuto, del, recover\<close>

text \<open>
  \<open>fres\<close> is what the factory returns if this call of \<open>incAuto\<close> invokes it.
\<close>

definition incAuto :: "error + src \<Rightarrow> classic \<Rightarrow> error option result" where
  "incAuto fres p0 =
     (let p = Lock p0 in
      if len p \<ge> capacity p then Returns None (Unlock p)
      else
        (let p1 = emit (Factory_ret fres) p in
         case fres of
           Inl e \<Rightarrow> Returns (Some e) (Unlock p1)
         | Inr r \<Rightarrow>
             (case chan_send r p1 of
                (Sent, q) \<Rightarrow> Returns None (Unlock (q\<lparr>len := len q + 1\<rparr>))
              | (Send_blocks, q) \<Rightarrow> Blocks q
              | (Send_panics, q) \<Rightarrow> Panics (Unlock q))))"

text \<open>
  \<open>del\<close> calls the resource's \<open>Release\<close> outside the lock, then decrements \<open>len\<close>
  under the lock.
\<close>

definition del_Release :: "src \<Rightarrow> classic \<Rightarrow> classic" where
  "del_Release r p = emit (Src_Release r) p"

definition del_locked :: "classic \<Rightarrow> classic" where
  "del_locked p0 = (let p = Lock p0 in Unlock (p\<lparr>len := len p - 1\<rparr>))"

definition del :: "src \<Rightarrow> classic \<Rightarrow> classic" where
  "del r p = del_locked (del_Release r p)"

text \<open>
  \<open>recover\<close> takes the read lock and returns at once when the pool is released;
  otherwise it resets the resource and sends it on the channel, still under the read
  lock. The send is a step of its own, because it can wait for room in the buffer
  while other readers run.
\<close>

definition recover_enter :: "src \<Rightarrow> classic \<Rightarrow> bool \<times> classic" where
  "recover_enter r p0 =
     (let p = RLock p0 in
      if released p then (False, RUnlock p)
      else (True, emit (Src_Reset r) p))"

definition recover_send :: "src \<Rightarrow> classic \<Rightarrow> unit result" where
  "recover_send r p =
     (case chan_send r p of
        (Sent, q) \<Rightarrow> Returns () (RUnlock q)
      | (Send_blocks, q) \<Rightarrow> Blocks q
      | (Send_panics, q) \<Rightarrow> Panics (RUnlock q))"

definition recover :: "src \<Rightarrow> classic \<Rightarrow> unit result" where
  "recover r p =
     (case recover_enter r p of
        (False, q) \<Rightarrow> Returns () q
      | (True, q) \<Rightarrow> recover_send r q)"

subsection \<open>The first critical section of Call\<close>

datatype selected = Pool_released | Selected "src option" | Default

text \<open>
  \<^verbatim>\<open>
  wait:
      self.RLock()
      if self.released { self.RUnlock(); return releasedError }
      select {
      case src = <-self.srcs: self.RUnlock() ...
      default:                self.RUnlock() ...
      }
  \<close>
\<close>

definition Call_wait :: "classic \<Rightarrow> selected \<times> classic" where
  "Call_wait p0 =
     (let p = RLock p0 in
      if released p then (Pool_released, RUnlock p)
      else
        (case chan_recv p of
           (Received x, q) \<Rightarrow> (Selected x, RUnlock q)
         | (Recv_blocks, q) \<Rightarrow> (Default, RUnlock q)))"

subsection \<open>Goroutines\<close>

text \<open>
  The program points of a goroutine that runs \<open>Call\<close>, named after what it is about
  to do: take the first critical section (label \<open>wait\<close>), call \<open>IsUsable\<close> on what
  it received (nil when the channel was closed), call the resource's \<open>Release\<close>
  inside \<open>del\<close>, take the lock inside \<open>del\<close>, call \<open>incAuto\<close>, run the callback,
  enter \<open>recover\<close> from the deferred function with the error to return, send the
  resource back inside \<open>recover\<close>; or it has returned, or it sleeps for ever inside
  \<open>incAuto\<close>.
\<close>

datatype pc =
    At_wait
  | At_IsUsable "src option"
  | At_del src
  | At_del_Lock src
  | At_incAuto
  | At_callback src
  | At_recover src "error option"
  | At_send src "error option"
  | Returned "error option"
  | In_incAuto

datatype gc_pc = Gc_top | Gc_body | Gc_exit | Gc_blocked

datatype cb_result = Cb_returns "error option" | Cb_panics string

text \<open>
  \<^verbatim>\<open>
  defer func() {
      if p := recover(); p != nil { err = fmt.Errorf("%v", p) }
      self.recover(src)
  }()
  err = callback(src)
  \<close>
\<close>

definition deferred_err :: "cb_result \<Rightarrow> error option" where
  "deferred_err cb = (case cb of Cb_returns e \<Rightarrow> e | Cb_panics v \<Rightarrow> Some (Errorf v))"

record world =
  pool :: classic
  procs :: "pc list"
  reaper :: gc_pc
  crashed :: bool

text \<open>
  \<open>make(chan Src, capacity)\<close> panics on a negative size. The constructor starts the
  reaper goroutine.
\<close>

definition ClassicPool :: "int \<Rightarrow> int \<Rightarrow> world option" where
  "ClassicPool cap mi =
     (if cap < 0 then None
      else Some \<lparr>pool = \<lparr>srcs = [], srcs_closed = False, capacity = cap, maxIdle = mi,
                          len = 0, released = False, writer = False, readers = 0,
                          events = []\<rparr>,
                 procs = [], reaper = Gc_top, crashed = False\<rparr>)"

datatype action =
    Go_Call
  | Select nat
  | IsUsable nat bool
  | Destroy nat
  | Del_len nat
  | IncAuto nat "error + src"
  | Callback nat cb_result
  | Recover nat
  | Send nat
  | Do_Release
  | Gc_test
  | Gc_pass

definition pc_at :: "world \<Rightarrow> nat \<Rightarrow> pc option" where
  "pc_at w i = (if i < length (procs w) then Some (procs w ! i) else None)"

definition goto :: "nat \<Rightarrow> pc \<Rightarrow> classic \<Rightarrow> world \<Rightarrow> world" where
  "goto i c q w = w\<lparr>pool := q, procs := (procs w)[i := c]\<rparr>"

definition crash :: "classic \<Rightarrow> world \<Rightarrow> world" where
  "crash q w = w\<lparr>pool := q, crashed := True\<rparr>"

text \<open>
  One step of the program. An action names the goroutine that moves and carries the
  answer of the external code it calls. The result is \<open>None\<close> when that goroutine
  is not at that point or cannot proceed (it waits for the lock, or for room in the
  channel). A panic that nothing recovers ends the program.
\<close>

fun exec :: "action \<Rightarrow> world \<Rightarrow> world option" where
  "exec Go_Call w = Some (w\<lparr>procs := procs w @ [At_wait]\<rparr>)"
| "exec (Select i) w =
     (if pc_at w i = Some At_wait \<and> can_RLock (pool w) then
        (case Call_wait (pool w) of
           (Pool_released, q) \<Rightarrow> Some (goto i (Returned (Some releasedError)) q w)
         | (Selected x, q) \<Rightarrow> Some (goto i (At_IsUsable x) q w)
         | (Default, q) \<Rightarrow> Some (goto i At_incAuto q w))
      else None)"
| "exec (IsUsable i b) w =
     (case pc_at w i of
        Some (At_IsUsable None) \<Rightarrow> Some (crash (pool w) w)
      | Some (At_IsUsable (Some r)) \<Rightarrow>
          Some (goto i (if b then At_callback r else At_del r)
                  (emit (Src_IsUsable r) (pool w)) w)
      | _ \<Rightarrow> None)"
| "exec (Destroy i) w =
     (case pc_at w i of
        Some (At_del r) \<Rightarrow> Some (goto i (At_del_Lock r) (del_Release r (pool w)) w)
      | _ \<Rightarrow> None)"
| "exec (Del_len i) w =
     (case pc_at w i of
        Some (At_del_Lock r) \<Rightarrow>
          (if can_Lock (pool w) then Some (goto i At_wait (del_locked (pool w)) w)
           else None)
      | _ \<Rightarrow> None)"
| "exec (IncAuto i fres) w =
     (if pc_at w i = Some At_incAuto \<and> can_Lock (pool w) then
        (case incAuto fres (pool w) of
           Returns None q \<Rightarrow> Some (goto i At_wait q w)
         | Returns (Some e) q \<Rightarrow> Some (goto i (Returned (Some e)) q w)
         | Blocks q \<Rightarrow> Some (goto i In_incAuto q w)
         | Panics q \<Rightarrow> Some (crash q w))
      else None)"
| "exec (Callback i cb) w =
     (case pc_at w i of
        Some (At_callback r) \<Rightarrow>
          Some (goto i (At_recover r (deferred_err cb)) (emit (Callback_on r) (pool w)) w)
      | _ \<Rightarrow> None)"
| "exec (Recover i) w =
     (case pc_at w i of
        Some (At_recover r e) \<Rightarrow>
          (if can_RLock (pool w) then
             (case recover_enter r (pool w) of
                (False, q) \<Rightarrow> Some (goto i (Returned e) q w)
              | (True, q) \<Rightarrow> Some (goto i (At_send r e) q w))
           else None)
      | _ \<Rightarrow> None)"
| "exec (Send i) w =
     (case pc_at w i of
        Some (At_send r e) \<Rightarrow>
          (case recover_send r (pool w) of
             Returns u q \<Rightarrow> Some (goto i (Returned e) q w)
           | Blocks q \<Rightarrow> None
           | Panics q \<Rightarrow> Some (crash q w))
      | _ \<Rightarrow> None)"
| "exec Do_Release w =
     (if can_Lock (pool w) then
        (case Release (pool w) of
           Returns u q \<Rightarrow> Some (w\<lparr>pool := q\<rparr>)
         | Blocks q \<Rightarrow> Some (w\<lparr>pool := q\<rparr>)
         | Panics q \<Rightarrow> Some (crash q w))
      else None)"
| "exec Gc_test w =
     (if reaper w = Gc_top \<and> can_RLock (pool w)
      then Some (w\<lparr>reaper := (if isReleased (pool w) then Gc_exit else Gc_body)\<rparr>)
      else None)"
| "exec Gc_pass w =
     (if reaper w = Gc_body \<and> can_Lock (pool w) then
        (case gc (pool w) of
           Returns u q \<Rightarrow> Some (w\<lparr>pool := q, reaper := Gc_top\<rparr>)
         | Blocks q \<Rightarrow> Some (w\<lparr>pool := q, reaper := Gc_blocked\<rparr>)
         | Panics q \<Rightarrow> Some (crash q w))
      else None)"

definition step :: "action \<Rightarrow> world \<Rightarrow> world option" where
  "step a w = (if crashed w then None else exec a w)"

fun run :: "action list \<Rightarrow> world \<Rightarrow> world option" where
  "run [] w = Some w"
| "run (a # as) w = (case step a w of None \<Rightarrow> None | Some w' \<Rightarrow> run as w')"

subsection \<open>Auxiliary notions for the statements\<close>

text \<open>
  \<open>consume k p\<close> is the struct after \<open>k\<close> receives from the channel, each followed by
  \<open>Release\<close> on the resource received.
\<close>

definition consume :: "nat \<Rightarrow> classic \<Rightarrow> classic" where
  "consume k p = p\<lparr>srcs := drop k (srcs p),
                   events := events p @ map Src_Release (take k (srcs p))\<rparr>"

text \<open>
  The resource a goroutine has received from the channel and not yet given up, by
  program point. \<open>borrowed\<close> counts the goroutines that hold one.
\<close>

fun holds :: "pc \<Rightarrow> src option" where
  "holds (At_IsUsable x) = x"
| "holds (At_del r) = Some r"
| "holds (At_del_Lock r) = Some r"
| "holds (At_callback r) = Some r"
| "holds (At_recover r e) = Some r"
| "holds (At_send r e) = Some r"
| "holds c = None"

fun holding :: "pc \<Rightarrow> nat" where
  "holding c = (if holds c = None then 0 else 1)"

fun sending :: "pc \<Rightarrow> nat" where
  "sending (At_send r e) = 1"
| "sending c = 0"

definition borrowed :: "world \<Rightarrow> nat" where
  "borrowed w = sum_list (map holding (procs w))"

text \<open>
  What holds in every world the program can reach: nothing has panicked, the channel
  is open, the lock is held by a writer whenever the pool is released, readers and a
  writer exclude each other, the read locks held are those of the goroutines that are
  sending inside \<open>recover\<close>, and, while no writer holds the lock, \<open>len\<close> is the
  number of idle resources plus the number of borrowed ones.
\<close>

definition pool_inv :: "world \<Rightarrow> bool" where
  "pool_inv w =
     (\<not> crashed w \<and> \<not> srcs_closed (pool w) \<and> 0 \<le> capacity (pool w) \<and>
      (released (pool w) \<longrightarrow> writer (pool w)) \<and>
      (writer (pool w) \<longrightarrow> readers (pool w) = 0) \<and>
      sum_list (map sending (procs w)) = readers (pool w) \<and>
      (\<not> writer (pool w) \<longrightarrow>
         len (pool w) = int (length (srcs (pool w))) + int (borrowed w)) \<and>
      len (pool w) \<le> capacity (pool w) \<and>
      (\<forall>c \<in> set (procs w). c \<noteq> At_IsUsable None \<and> c \<noteq> In_incAuto))"

text \<open>An event is quiet when it is neither a call of the factory nor a send on the channel.\<close>

fun quiet :: "event \<Rightarrow> bool" where
  "quiet (Factory_ret x) = False"
| "quiet (Chan_send r) = False"
| "quiet e = True"

text \<open>
  What holds of a pool of capacity 0 as long as it is not released: the channel is
  empty, nothing was ever called, and every goroutine inside \<open>Call\<close> is at the label
  \<open>wait\<close> or about to call \<open>incAuto\<close>.
\<close>

definition spinning :: "world \<Rightarrow> bool" where
  "spinning w =
     (capacity (pool w) = 0 \<and> srcs (pool w) = [] \<and> events (pool w) = [] \<and>
      \<not> srcs_closed (pool w) \<and> \<not> crashed w \<and>
      (writer (pool w) \<or> 0 \<le> len (pool w)) \<and>
      (0 \<le> maxIdle (pool w) \<longrightarrow> \<not> writer (pool w) \<and> readers (pool w) = 0) \<and>
      list_all (\<lambda>c. c = At_wait \<or> c = At_incAuto) (procs w))"

text \<open>
  The resources the factory has returned so far, read off the events; how often a
  resource occurs in a program point and in a world (in the channel, or held by a
  goroutine). \<open>own_inv\<close>: every resource is in at most one place, and only resources
  that the factory returned are anywhere.
\<close>

fun made :: "event list \<Rightarrow> src list" where
  "made [] = []"
| "made (Factory_ret (Inr r) # es) = r # made es"
| "made (e # es) = made es"

definition has :: "src \<Rightarrow> pc \<Rightarrow> nat" where
  "has x c = (if holds c = Some x then 1 else 0)"

definition occ :: "src \<Rightarrow> world \<Rightarrow> nat" where
  "occ x w = count_list (srcs (pool w)) x + sum_list (map (has x) (procs w))"



section \<open>Properties\<close>

subsection \<open>The loops in closed form\<close>

lemma gc_loop_closed:
  "gc_loop extra p =
     (if extra \<le> 0 then Returns () p
      else if extra \<le> int (length (srcs p)) then Returns () (consume (nat extra) p)
      else if srcs_closed p then Panics (consume (length (srcs p)) p)
      else Blocks (consume (length (srcs p)) p))"
proof (induction "srcs p" arbitrary: extra p)
  case Nil
  then show ?case by (simp add: gc_loop.simps [of extra p] chan_recv_def consume_def)
next
  case (Cons r rest)
  from Cons.hyps(2) have sp: "srcs p = r # rest" by simp
  let ?q = "emit (Src_Release r) (p\<lparr>srcs := rest\<rparr>)"
  have rest: "rest = srcs ?q" by (simp add: emit_def)
  show ?case
  proof (cases "extra \<le> 0")
    case True
    then show ?thesis by (simp add: gc_loop.simps [of extra p])
  next
    case False
    then have "gc_loop extra p = gc_loop (extra - 1) ?q"
      using sp by (simp add: gc_loop.simps [of extra p] chan_recv_def)
    also note Cons.hyps(1) [OF rest, of "extra - 1"]
    finally show ?thesis using False sp
      by (auto simp: consume_def emit_def nat_diff_distrib take_Cons' drop_Cons' nat_le_iff
          split: nat.splits)
  qed
qed

text \<open>The loop of \<open>Release\<close> is the reaper's loop run once more than its counter says.\<close>

lemma drain_gc_loop: "drain i p = gc_loop (i + 1) p"
proof (induction i p rule: drain.induct)
  case (1 i p)
  show ?case
  proof (cases "i \<ge> 0")
    case True
    then show ?thesis
      using 1
      by (subst drain.simps, subst gc_loop.simps)
        (auto split: prod.splits recv_result.splits option.splits)
  next
    case False
    then show ?thesis by (subst drain.simps, subst gc_loop.simps) simp
  qed
qed

text \<open>
  Hence \<open>Release\<close> on a pool that is not yet released never returns: after the idle
  resources it asks the channel for one more, with the exclusive lock held.
\<close>

lemma Release_closed:
  "Release p =
     (if released p then Returns () (p\<lparr>writer := False\<rparr>)
      else if srcs_closed p
        then Panics (consume (length (srcs p)) (p\<lparr>released := True, writer := False\<rparr>))
      else Blocks (consume (length (srcs p)) (p\<lparr>released := True, writer := True\<rparr>)))"
  by (simp add: Release_def Lock_def Unlock_def drain_gc_loop gc_loop_closed consume_def)

lemma gc_closed:
  "gc p =
     (let extra = int (length (srcs p)) - maxIdle p in
      if extra \<le> 0 then Returns () (p\<lparr>writer := False\<rparr>)
      else if 0 \<le> maxIdle p
        then Returns () (consume (nat extra) (p\<lparr>writer := False, len := len p - extra\<rparr>))
      else if srcs_closed p
        then Panics (consume (length (srcs p)) (p\<lparr>writer := True, len := len p - extra\<rparr>))
      else Blocks (consume (length (srcs p)) (p\<lparr>writer := True, len := len p - extra\<rparr>)))"
  by (simp add: gc_def Lock_def Unlock_def gc_loop_closed consume_def Let_def)

lemma Call_wait_closed:
  "Call_wait p =
     (if released p then (Pool_released, p)
      else case srcs p of
             [] \<Rightarrow> if srcs_closed p then (Selected None, p) else (Default, p)
           | r # rest \<Rightarrow> (Selected (Some r), p\<lparr>srcs := rest\<rparr>))"
  by (simp add: Call_wait_def RLock_def RUnlock_def chan_recv_def split: list.splits)

lemma incAuto_closed:
  "incAuto fres p =
     (if capacity p \<le> len p then Returns None (p\<lparr>writer := False\<rparr>)
      else case fres of
             Inl e \<Rightarrow> Returns (Some e)
                        (p\<lparr>writer := False, events := events p @ [Factory_ret fres]\<rparr>)
           | Inr r \<Rightarrow>
               if srcs_closed p
                 then Panics (p\<lparr>writer := False, events := events p @ [Factory_ret fres]\<rparr>)
               else if int (length (srcs p)) < capacity p
                 then Returns None
                        (p\<lparr>writer := False, srcs := srcs p @ [r], len := len p + 1,
                           events := events p @ [Factory_ret fres, Chan_send r]\<rparr>)
               else Blocks (p\<lparr>writer := True, events := events p @ [Factory_ret fres]\<rparr>))"
  by (simp add: incAuto_def Lock_def Unlock_def emit_def chan_send_def split: sum.splits)

lemma del_locked_closed: "del_locked p = p\<lparr>writer := False, len := len p - 1\<rparr>"
  by (simp add: del_locked_def Lock_def Unlock_def)

lemma recover_enter_closed:
  "recover_enter r p =
     (if released p then (False, p)
      else (True, p\<lparr>readers := readers p + 1, events := events p @ [Src_Reset r]\<rparr>))"
  by (simp add: recover_enter_def RLock_def RUnlock_def emit_def)

lemma recover_send_closed:
  "recover_send r p =
     (if srcs_closed p then Panics (p\<lparr>readers := readers p - 1\<rparr>)
      else if int (length (srcs p)) < capacity p
        then Returns () (p\<lparr>readers := readers p - 1, srcs := srcs p @ [r],
                           events := events p @ [Chan_send r]\<rparr>)
      else Blocks p)"
  by (simp add: recover_send_def RUnlock_def emit_def chan_send_def)

lemmas closed_forms = Call_wait_closed incAuto_closed del_locked_closed recover_enter_closed
  recover_send_closed Release_closed gc_closed del_Release_def emit_def consume_def
  can_Lock_def can_RLock_def isReleased_def

lemmas world_defs = step_def goto_def crash_def pc_at_def

subsection \<open>The live count and the capacity\<close>

lemma step_len_capacity:
  assumes "step a w = Some w'" and "len (pool w) \<le> capacity (pool w)"
    and "0 \<le> capacity (pool w)"
  shows "len (pool w') \<le> capacity (pool w') \<and> capacity (pool w') = capacity (pool w)"
  using assms
  by (cases a)
    (auto simp: world_defs closed_forms Let_def
      split: if_splits pc.splits option.splits list.splits sum.splits)

lemma run_len_capacity:
  "run acts w = Some w' \<Longrightarrow> len (pool w) \<le> capacity (pool w) \<Longrightarrow> 0 \<le> capacity (pool w) \<Longrightarrow>
   len (pool w') \<le> capacity (pool w') \<and> capacity (pool w') = capacity (pool w)"
proof (induction acts arbitrary: w)
  case Nil
  then show ?case by simp
next
  case (Cons a acts)
  then obtain w1 where s: "step a w = Some w1" and r: "run acts w1 = Some w'"
    by (auto split: option.splits)
  from step_len_capacity [OF s Cons.prems(2,3)] Cons.IH [OF r] Cons.prems(3)
  show ?case by simp
qed

text \<open>
  C1. Whatever the goroutines do after \<open>ClassicPool(capacity, maxIdle, factory)\<close>, in
  whatever order (calls of \<open>Call\<close> interleaved at their critical sections, passes of
  the reaper, calls of \<open>Release\<close>), the field \<open>len\<close> never exceeds \<open>capacity\<close>.
\<close>

theorem len_never_exceeds_capacity:
  assumes "ClassicPool c m = Some w0" and "run acts w0 = Some w"
  shows "len (pool w) \<le> capacity (pool w) \<and> capacity (pool w) = c"
  using assms run_len_capacity [of acts w0 w]
  by (auto simp: ClassicPool_def split: if_splits)

theorem len_never_exceeds_capacity_witness:
  "len (pool (the (Option.bind (ClassicPool 1 0)
      (run [Go_Call, Go_Call, Select 0, IncAuto 0 (Inr 5), Select 1, Select 0,
            IncAuto 0 (Inr 6), IsUsable 1 True, Callback 1 (Cb_returns None), Recover 1,
            Send 1, Gc_test, Gc_pass])))) \<le> 1"
proof -
  let ?init = "\<lparr>pool = \<lparr>srcs = [], srcs_closed = False, capacity = 1, maxIdle = 0,
                 len = 0, released = False, writer = False, readers = 0, events = []\<rparr>,
               procs = [], reaper = Gc_top, crashed = False\<rparr>"
  let ?acts = "[Go_Call, Go_Call, Select 0, IncAuto 0 (Inr 5), Select 1, Select 0,
            IncAuto 0 (Inr 6), IsUsable 1 True, Callback 1 (Cb_returns None), Recover 1,
            Send 1, Gc_test, Gc_pass]"
  have a: "ClassicPool 1 0 = Some ?init" by (simp add: ClassicPool_def)
  have b: "run ?acts ?init \<noteq> None"
    by (simp add: world_defs closed_forms deferred_err_def)
  then obtain w where w: "run ?acts ?init = Some w" by blast
  from len_never_exceeds_capacity [OF a w] show ?thesis using a w by simp
qed

subsection \<open>Release\<close>

text \<open>
  C2. \<open>Release\<close> is meant to set \<open>released\<close>, destroy the idle resources, close the
  channel and set \<open>len\<close> to 0. The code does the first two and then blocks: its loop
  counts from \<open>len(self.srcs)\<close> down to 0 inclusive, so it receives once more than
  there are idle resources, from a channel into which nobody can send while the
  exclusive lock is held. Here a pool of capacity 2 holds one idle resource, 7, when
  \<open>Release\<close> is called: afterwards \<open>len\<close> is still 1, the channel is not closed, the
  lock is held, and neither a second \<open>Release\<close> nor a \<open>Call\<close> can take its first step.
\<close>

theorem Release_blocks_with_lock_held:
  "Option.bind (ClassicPool 2 1) (run [Go_Call, Select 0, IncAuto 0 (Inr 7), Do_Release]) =
     Some \<lparr>pool = \<lparr>srcs = [], srcs_closed = False, capacity = 2, maxIdle = 1, len = 1,
                    released = True, writer = True, readers = 0,
                    events = [Factory_ret (Inr 7), Chan_send 7, Src_Release 7]\<rparr>,
           procs = [At_wait], reaper = Gc_top, crashed = False\<rparr> \<and>
   Option.bind (ClassicPool 2 1)
     (run [Go_Call, Select 0, IncAuto 0 (Inr 7), Do_Release, Do_Release]) = None \<and>
   Option.bind (ClassicPool 2 1)
     (run [Go_Call, Select 0, IncAuto 0 (Inr 7), Do_Release, Select 0]) = None"
  by (simp add: ClassicPool_def world_defs closed_forms)

theorem Release_blocks_with_lock_held_witness:
  "released (pool (the (Option.bind (ClassicPool 2 1)
      (run [Go_Call, Select 0, IncAuto 0 (Inr 7), Do_Release])))) \<and>
   len (pool (the (Option.bind (ClassicPool 2 1)
      (run [Go_Call, Select 0, IncAuto 0 (Inr 7), Do_Release])))) = 1"
  using Release_blocks_with_lock_held by simp

subsection \<open>incAuto\<close>

text \<open>
  C4. The contract of \<open>incAuto\<close>, entered with the lock free. If \<open>len >= capacity\<close> it
  returns nil, the factory is not called and the struct is unchanged. Otherwise the
  factory is called; if it returns an error, \<open>incAuto\<close> returns that error and only the
  record of the factory call is added (\<open>len\<close> and the channel are unchanged); if it
  returns a resource and the channel is open with room in its buffer, the resource is
  appended to the channel and \<open>len\<close> grows by exactly one. (In a world reached from
  \<open>ClassicPool\<close> with the lock free, the channel is open and has room whenever
  \<open>len < capacity\<close>: lemma \<open>pool_inv_room\<close> below.)
\<close>

theorem incAuto_contract:
  assumes "\<not> writer p"
  shows "(capacity p \<le> len p \<longrightarrow> incAuto fres p = Returns None p) \<and>
         (len p < capacity p \<longrightarrow>
            (\<forall>e. fres = Inl e \<longrightarrow>
               incAuto fres p =
                 Returns (Some e) (p\<lparr>events := events p @ [Factory_ret (Inl e)]\<rparr>))) \<and>
         (len p < capacity p \<and> \<not> srcs_closed p \<and> int (length (srcs p)) < capacity p \<longrightarrow>
            (\<forall>r. fres = Inr r \<longrightarrow>
               incAuto fres p =
                 Returns None (p\<lparr>srcs := srcs p @ [r], len := len p + 1,
                   events := events p @ [Factory_ret (Inr r), Chan_send r]\<rparr>)))"
  using assms
  by (simp add: incAuto_def Lock_def Unlock_def emit_def chan_send_def)

theorem incAuto_contract_witness:
  "incAuto (Inr 9) \<lparr>srcs = [4], srcs_closed = False, capacity = 2, maxIdle = 1, len = 2,
       released = False, writer = False, readers = 0, events = []\<rparr> =
     Returns None \<lparr>srcs = [4], srcs_closed = False, capacity = 2, maxIdle = 1, len = 2,
       released = False, writer = False, readers = 0, events = []\<rparr> \<and>
   incAuto (Inl (Err ''dial'')) \<lparr>srcs = [4], srcs_closed = False, capacity = 2, maxIdle = 1,
       len = 1, released = False, writer = False, readers = 0, events = []\<rparr> =
     Returns (Some (Err ''dial'')) \<lparr>srcs = [4], srcs_closed = False, capacity = 2,
       maxIdle = 1, len = 1, released = False, writer = False, readers = 0,
       events = [Factory_ret (Inl (Err ''dial''))]\<rparr> \<and>
   incAuto (Inr 9) \<lparr>srcs = [4], srcs_closed = False, capacity = 2, maxIdle = 1, len = 1,
       released = False, writer = False, readers = 0, events = []\<rparr> =
     Returns None \<lparr>srcs = [4, 9], srcs_closed = False, capacity = 2, maxIdle = 1, len = 2,
       released = False, writer = False, readers = 0,
       events = [Factory_ret (Inr 9), Chan_send 9]\<rparr>"
  using
    incAuto_contract [of "\<lparr>srcs = [4], srcs_closed = False, capacity = 2, maxIdle = 1, len = 2,
       released = False, writer = False, readers = 0, events = []\<rparr>" "Inr 9"]
    incAuto_contract [of "\<lparr>srcs = [4], srcs_closed = False, capacity = 2, maxIdle = 1, len = 1,
       released = False, writer = False, readers = 0, events = []\<rparr>" "Inl (Err ''dial'')"]
    incAuto_contract [of "\<lparr>srcs = [4], srcs_closed = False, capacity = 2, maxIdle = 1, len = 1,
       released = False, writer = False, readers = 0, events = []\<rparr>" "Inr 9"]
  by simp

subsection \<open>The reaper\<close>

text \<open>
  C5. One pass of the reaper, entered with the lock free, on a pool whose \<open>maxIdle\<close> is
  not negative (the specification takes \<open>capacity\<close> and \<open>maxIdle\<close> to be non-negative;
  with a negative \<open>maxIdle\<close> the pass asks the channel for more than it holds and
  blocks, see \<open>gc_closed\<close>), with \<open>I\<close> idle resources in the channel. If \<open>I <= maxIdle\<close> the struct is unchanged and nothing is destroyed. If
  \<open>I > maxIdle\<close> the pass takes the \<open>I - maxIdle\<close> oldest resources from the channel,
  calls \<open>Release\<close> on exactly these, and lowers \<open>len\<close> by \<open>I - maxIdle\<close>. No other event
  is recorded: the pass never calls the factory.
\<close>

theorem gc_pass:
  assumes "\<not> writer p" and "0 \<le> maxIdle p"
  shows "(int (length (srcs p)) \<le> maxIdle p \<longrightarrow> gc p = Returns () p) \<and>
         (maxIdle p < int (length (srcs p)) \<longrightarrow>
            gc p = Returns ()
              (p\<lparr>srcs := drop (length (srcs p) - nat (maxIdle p)) (srcs p),
                 len := len p - (int (length (srcs p)) - maxIdle p),
                 events := events p @
                   map Src_Release (take (length (srcs p) - nat (maxIdle p)) (srcs p))\<rparr>) \<and>
            int (length (take (length (srcs p) - nat (maxIdle p)) (srcs p))) =
              int (length (srcs p)) - maxIdle p)"
  using assms
  by (auto simp: gc_closed consume_def Let_def nat_diff_distrib)

theorem gc_pass_witness:
  "gc \<lparr>srcs = [4, 5, 6], srcs_closed = False, capacity = 5, maxIdle = 1, len = 4,
       released = False, writer = False, readers = 0, events = []\<rparr> =
     Returns () \<lparr>srcs = [6], srcs_closed = False, capacity = 5, maxIdle = 1, len = 2,
       released = False, writer = False, readers = 0,
       events = [Src_Release 4, Src_Release 5]\<rparr> \<and>
   gc \<lparr>srcs = [4], srcs_closed = False, capacity = 5, maxIdle = 1, len = 4,
       released = False, writer = False, readers = 0, events = []\<rparr> =
     Returns () \<lparr>srcs = [4], srcs_closed = False, capacity = 5, maxIdle = 1, len = 4,
       released = False, writer = False, readers = 0, events = []\<rparr>"
  using
    gc_pass [of "\<lparr>srcs = [4, 5, 6], srcs_closed = False, capacity = 5, maxIdle = 1, len = 4,
       released = False, writer = False, readers = 0, events = []\<rparr>"]
    gc_pass [of "\<lparr>srcs = [4], srcs_closed = False, capacity = 5, maxIdle = 1, len = 4,
       released = False, writer = False, readers = 0, events = []\<rparr>"]
  by simp

subsection \<open>What every reachable world satisfies\<close>

lemma sum_list_map_update:
  fixes f :: "'a \<Rightarrow> nat"
  shows "i < length xs \<Longrightarrow> sum_list (map f (xs[i := c])) + f (xs ! i) = sum_list (map f xs) + f c"
  by (induction xs arbitrary: i) (auto split: nat.splits)

lemma set_update_cases: "x \<in> set (xs[i := c]) \<Longrightarrow> x = c \<or> x \<in> set xs"
  by (metis in_set_conv_nth length_list_update nth_list_update_eq nth_list_update_neq)

lemma goto_pool_inv:
  assumes "pool_inv w" and "i < length (procs w)"
    and "\<not> srcs_closed q" and "capacity q = capacity (pool w)"
    and "released q \<longrightarrow> writer q" and "writer q \<longrightarrow> readers q = 0"
    and "readers q + sending (procs w ! i) = readers (pool w) + sending c"
    and "\<not> writer q \<longrightarrow> \<not> writer (pool w) \<and> len q + int (length (srcs (pool w))) + int (holding (procs w ! i)) =
           len (pool w) + int (length (srcs q)) + int (holding c)"
    and "len q \<le> capacity q"
    and "c \<noteq> At_IsUsable None" and "c \<noteq> In_incAuto"
  shows "pool_inv (goto i c q w)"
proof -
  have s: "sum_list (map sending ((procs w)[i := c])) + sending (procs w ! i) =
           sum_list (map sending (procs w)) + sending c"
    using assms(2) by (rule sum_list_map_update)
  have h: "sum_list (map holding ((procs w)[i := c])) + holding (procs w ! i) =
           sum_list (map holding (procs w)) + holding c"
    using assms(2) by (rule sum_list_map_update)
  have m: "\<forall>x \<in> set ((procs w)[i := c]). x \<noteq> At_IsUsable None \<and> x \<noteq> In_incAuto"
    using assms(1,10,11) by (auto simp: pool_inv_def dest!: set_update_cases)
  have r: "sum_list (map sending ((procs w)[i := c])) = readers q"
    using s assms(1,7) by (simp add: pool_inv_def)
  have l: "\<not> writer q \<longrightarrow> len q = int (length (srcs q)) + int (sum_list (map holding ((procs w)[i := c])))"
    using h assms(1,8) by (auto simp: pool_inv_def borrowed_def)
  show ?thesis
    using assms(1,3,4,5,6,9) m r l
    by (simp add: pool_inv_def goto_def borrowed_def)
qed

lemma pool_invD:
  "pool_inv w \<Longrightarrow>
     \<not> crashed w \<and> \<not> srcs_closed (pool w) \<and> 0 \<le> capacity (pool w) \<and>
     (released (pool w) \<longrightarrow> writer (pool w)) \<and>
     (writer (pool w) \<longrightarrow> readers (pool w) = 0) \<and>
     (\<not> writer (pool w) \<longrightarrow>
         len (pool w) = int (length (srcs (pool w))) + int (borrowed w)) \<and>
     len (pool w) \<le> capacity (pool w)"
  unfolding pool_inv_def by blast

lemma nth_le_sum_list_map:
  fixes f :: "'a \<Rightarrow> nat"
  shows "i < length xs \<Longrightarrow> f (xs ! i) \<le> sum_list (map f xs)"
  by (induction xs arbitrary: i) (auto simp: nth_Cons trans_le_add2 split: nat.splits)

lemma holding_le_borrowed: "i < length (procs w) \<Longrightarrow> holding (procs w ! i) \<le> borrowed w"
  unfolding borrowed_def by (rule nth_le_sum_list_map)

lemma sending_le_readers:
  "pool_inv w \<Longrightarrow> i < length (procs w) \<Longrightarrow> sending (procs w ! i) \<le> readers (pool w)"
  using nth_le_sum_list_map [of i "procs w" sending] by (simp add: pool_inv_def)

lemma step_pool_inv_Select:
  assumes "step (Select i) w = Some w'" and "pool_inv w"
  shows "pool_inv w'"
  using assms pool_invD [OF assms(2)] holding_le_borrowed [of i w]
  apply (clarsimp simp: step_def pc_at_def closed_forms split: if_splits list.splits)
   apply (rule goto_pool_inv; simp)
  apply (rule goto_pool_inv; simp)+
  done

lemma pool_inv_nth:
  "pool_inv w \<Longrightarrow> i < length (procs w) \<Longrightarrow>
   procs w ! i \<noteq> At_IsUsable None \<and> procs w ! i \<noteq> In_incAuto"
  by (simp add: pool_inv_def)

lemma step_pool_inv_Go_Call:
  assumes "step Go_Call w = Some w'" and "pool_inv w"
  shows "pool_inv w'"
proof -
  from assms have w': "w' = w\<lparr>procs := procs w @ [At_wait]\<rparr>"
    by (simp add: step_def split: if_splits)
  show ?thesis
    using assms(2) unfolding pool_inv_def borrowed_def w' by simp
qed

lemma step_pool_inv_IsUsable:
  assumes "step (IsUsable i b) w = Some w'" and "pool_inv w"
  shows "pool_inv w'"
  using assms pool_invD [OF assms(2)] pool_inv_nth [OF assms(2), of i]
  apply (clarsimp simp: step_def pc_at_def closed_forms split: if_splits pc.splits option.splits)
  apply (rule goto_pool_inv; simp)+
  done

lemma step_pool_inv_Destroy:
  assumes "step (Destroy i) w = Some w'" and "pool_inv w"
  shows "pool_inv w'"
  using assms pool_invD [OF assms(2)]
  apply (clarsimp simp: step_def pc_at_def closed_forms split: if_splits pc.splits)
  apply (rule goto_pool_inv; simp)+
  done

lemma step_pool_inv_Del_len:
  assumes "step (Del_len i) w = Some w'" and "pool_inv w"
  shows "pool_inv w'"
  using assms pool_invD [OF assms(2)] holding_le_borrowed [of i w]
  apply (clarsimp simp: step_def pc_at_def closed_forms split: if_splits pc.splits)
  apply (rule goto_pool_inv; simp)+
  done

lemma step_pool_inv_IncAuto:
  assumes "step (IncAuto i fres) w = Some w'" and "pool_inv w"
  shows "pool_inv w'"
  using assms pool_invD [OF assms(2)]
  apply (clarsimp simp: step_def pc_at_def closed_forms split: if_splits sum.splits)
    apply (rule goto_pool_inv; simp)+
  done

lemma step_pool_inv_Callback:
  assumes "step (Callback i cb) w = Some w'" and "pool_inv w"
  shows "pool_inv w'"
  using assms pool_invD [OF assms(2)]
  apply (clarsimp simp: step_def pc_at_def closed_forms split: if_splits pc.splits)
  apply (rule goto_pool_inv; simp)+
  done

lemma step_pool_inv_Recover:
  assumes "step (Recover i) w = Some w'" and "pool_inv w"
  shows "pool_inv w'"
  using assms pool_invD [OF assms(2)]
  apply (clarsimp simp: step_def pc_at_def closed_forms split: if_splits pc.splits)
  apply (rule goto_pool_inv; simp)+
  done

lemma step_pool_inv_Send:
  assumes "step (Send i) w = Some w'" and "pool_inv w"
  shows "pool_inv w'"
  using assms pool_invD [OF assms(2)] sending_le_readers [OF assms(2), of i]
    holding_le_borrowed [of i w]
  apply (clarsimp simp: step_def pc_at_def closed_forms split: if_splits pc.splits)
  apply (rule goto_pool_inv; simp)+
  done

lemma step_pool_inv_Do_Release:
  assumes "step Do_Release w = Some w'" and "pool_inv w"
  shows "pool_inv w'"
  using assms
  by (auto simp: step_def closed_forms pool_inv_def borrowed_def split: if_splits)

lemma step_pool_inv_Gc_test:
  assumes "step Gc_test w = Some w'" and "pool_inv w"
  shows "pool_inv w'"
proof -
  from assms obtain g where w': "w' = w\<lparr>reaper := g\<rparr>"
    by (auto simp: step_def split: if_splits)
  show ?thesis
    using assms(2) unfolding pool_inv_def borrowed_def w' by simp
qed

lemma step_pool_inv_Gc_pass:
  assumes "step Gc_pass w = Some w'" and "pool_inv w"
  shows "pool_inv w'"
  using assms
  by (auto simp: step_def closed_forms pool_inv_def borrowed_def Let_def split: if_splits)

lemma step_pool_inv: "step a w = Some w' \<Longrightarrow> pool_inv w \<Longrightarrow> pool_inv w'"
  by (cases a)
    (blast intro: step_pool_inv_Go_Call step_pool_inv_Select step_pool_inv_IsUsable
      step_pool_inv_Destroy step_pool_inv_Del_len step_pool_inv_IncAuto step_pool_inv_Callback
      step_pool_inv_Recover step_pool_inv_Send step_pool_inv_Do_Release step_pool_inv_Gc_test
      step_pool_inv_Gc_pass)+

lemma run_pool_inv: "run acts w = Some w' \<Longrightarrow> pool_inv w \<Longrightarrow> pool_inv w'"
  by (induction acts arbitrary: w) (auto split: option.splits dest: step_pool_inv)

lemma ClassicPool_pool_inv: "ClassicPool c m = Some w0 \<Longrightarrow> pool_inv w0"
  by (auto simp: ClassicPool_def pool_inv_def borrowed_def split: if_splits)

text \<open>
  In a reachable world with the lock free, a send on the channel finds room whenever a
  resource is borrowed or \<open>len\<close> is below \<open>capacity\<close>: the sends of \<open>incAuto\<close> and of
  \<open>recover\<close> never wait, and never hit a closed channel.
\<close>

lemma pool_inv_room:
  assumes "pool_inv w" and "\<not> writer (pool w)"
    and "0 < borrowed w \<or> len (pool w) < capacity (pool w)"
  shows "int (length (srcs (pool w))) < capacity (pool w) \<and> \<not> srcs_closed (pool w)"
  using assms pool_invD [OF assms(1)] by auto

subsection \<open>The callback's exit\<close>



subsection \<open>After the released flag is set\<close>

lemma pool_inv_writer_no_send:
  assumes "pool_inv w" and "writer (pool w)" and "i < length (procs w)"
  shows "procs w ! i \<noteq> At_send r e"
  using sending_le_readers [OF assms(1,3)] pool_invD [OF assms(1)] assms(2) by auto

lemma step_after_release:
  assumes "step a w = Some w'" and "pool_inv w" and "released (pool w)"
  shows "released (pool w') \<and> srcs (pool w') = srcs (pool w) \<and>
         (\<exists>evs. events (pool w') = events (pool w) @ evs \<and> list_all quiet evs)"
proof -
  from pool_invD [OF assms(2)] assms(3)
  have wr: "writer (pool w)" and rd: "readers (pool w) = 0" by auto
  have ns: "\<And>i r e. i < length (procs w) \<Longrightarrow> procs w ! i \<noteq> At_send r e"
    using pool_inv_writer_no_send [OF assms(2) wr] by blast
  show ?thesis
  proof (cases a)
    case (Send i)
    then show ?thesis using assms(1) ns [of i]
      by (auto simp: step_def pc_at_def split: if_splits pc.splits)
  qed (use assms(1,3) wr in \<open>auto simp: step_def pc_at_def goto_def crash_def can_Lock_def can_RLock_def
        emit_def del_Release_def split: if_splits pc.splits option.splits\<close>)
qed

lemma run_after_release:
  "run acts w = Some w' \<Longrightarrow> pool_inv w \<Longrightarrow> released (pool w) \<Longrightarrow>
   released (pool w') \<and> srcs (pool w') = srcs (pool w) \<and>
   (\<exists>evs. events (pool w') = events (pool w) @ evs \<and> list_all quiet evs)"
proof (induction acts arbitrary: w)
  case Nil
  then show ?case by simp
next
  case (Cons a acts)
  then obtain w1 where s: "step a w = Some w1" and r: "run acts w1 = Some w'"
    by (auto split: option.splits)
  from step_after_release [OF s Cons.prems(2,3)] obtain evs1 where
    1: "released (pool w1)" "srcs (pool w1) = srcs (pool w)"
       "events (pool w1) = events (pool w) @ evs1" "list_all quiet evs1" by blast
  from Cons.IH [OF r step_pool_inv [OF s Cons.prems(2)] 1(1)] obtain evs2 where
    2: "released (pool w')" "srcs (pool w') = srcs (pool w1)"
       "events (pool w') = events (pool w1) @ evs2" "list_all quiet evs2" by blast
  from 1 2 have "events (pool w') = events (pool w) @ (evs1 @ evs2)" "list_all quiet (evs1 @ evs2)"
    by simp_all
  with 1 2 show ?case by metis
qed

text \<open>
  C8. Take any world the program reaches from \<open>ClassicPool\<close> in which \<open>released\<close> is
  set, and any continuation from there. At its end \<open>released\<close> is still set, the
  channel's content is the same, and the events recorded meanwhile are all quiet: the
  factory was not called and nothing was sent on the channel. (In the code this rests
  on the lock: \<open>Release\<close> sets the flag under the exclusive lock and never gives the
  lock back, and \<open>incAuto\<close> and \<open>recover\<close> need it.)
\<close>

theorem released_is_final:
  assumes "ClassicPool c m = Some w0" and "run acts w0 = Some w" and "released (pool w)"
    and "run acts' w = Some w'"
  shows "released (pool w') \<and> srcs (pool w') = srcs (pool w) \<and>
         (\<exists>evs. events (pool w') = events (pool w) @ evs \<and> list_all quiet evs)"
  using run_after_release [OF assms(4) run_pool_inv [OF assms(2) ClassicPool_pool_inv [OF assms(1)]] assms(3)] .

theorem released_is_final_witness:
  "released (pool (the (Option.bind (ClassicPool 2 1)
      (run [Go_Call, Select 0, IncAuto 0 (Inr 7), Select 0, Do_Release,
            IsUsable 0 True, Callback 0 (Cb_returns None), Go_Call])))) \<and>
   list_all quiet [Src_IsUsable 7, Callback_on 7]"
proof -
  let ?init = "\<lparr>pool = \<lparr>srcs = [], srcs_closed = False, capacity = 2, maxIdle = 1,
                 len = 0, released = False, writer = False, readers = 0, events = []\<rparr>,
               procs = [], reaper = Gc_top, crashed = False\<rparr>"
  let ?mid = "\<lparr>pool = \<lparr>srcs = [], srcs_closed = False, capacity = 2, maxIdle = 1,
                 len = 1, released = True, writer = True, readers = 0,
                 events = [Factory_ret (Inr 7), Chan_send 7]\<rparr>,
               procs = [At_IsUsable (Some 7)], reaper = Gc_top, crashed = False\<rparr>"
  let ?fin = "\<lparr>pool = \<lparr>srcs = [], srcs_closed = False, capacity = 2, maxIdle = 1,
                 len = 1, released = True, writer = True, readers = 0,
                 events = [Factory_ret (Inr 7), Chan_send 7, Src_IsUsable 7, Callback_on 7]\<rparr>,
               procs = [At_recover 7 None, At_wait], reaper = Gc_top, crashed = False\<rparr>"
  have a: "ClassicPool 2 1 = Some ?init" by (simp add: ClassicPool_def)
  have b: "run [Go_Call, Select 0, IncAuto 0 (Inr 7), Select 0, Do_Release] ?init = Some ?mid"
    by (simp add: world_defs closed_forms)
  have c: "released (pool ?mid)" by simp
  have d: "run [IsUsable 0 True, Callback 0 (Cb_returns None), Go_Call] ?mid = Some ?fin"
    by (simp add: world_defs closed_forms deferred_err_def)
  have e: "run [Go_Call, Select 0, IncAuto 0 (Inr 7), Select 0, Do_Release,
            IsUsable 0 True, Callback 0 (Cb_returns None), Go_Call] ?init = Some ?fin"
    by (simp add: world_defs closed_forms deferred_err_def)
  from released_is_final [OF a b c d] have "released (pool ?fin)" by blast
  then show ?thesis using a e by simp
qed

subsection \<open>A pool of capacity 0\<close>

lemma step_released_mono: "step a w = Some w' \<Longrightarrow> released (pool w) \<Longrightarrow> released (pool w')"
  by (cases a)
    (auto simp: world_defs closed_forms Let_def
      split: if_splits pc.splits option.splits list.splits sum.splits)

lemma run_released_mono: "run acts w = Some w' \<Longrightarrow> released (pool w) \<Longrightarrow> released (pool w')"
  by (induction acts arbitrary: w) (auto split: option.splits dest: step_released_mono)

lemma list_all_update: "list_all P xs \<Longrightarrow> P c \<Longrightarrow> list_all P (xs[i := c])"
  by (induction xs arbitrary: i) (auto split: nat.splits)

lemma step_spinning:
  assumes "step a w = Some w'" and "spinning w" and "\<not> released (pool w')"
  shows "spinning w'"
proof -
  have nr: "\<not> released (pool w)" using assms(1,3) step_released_mono by blast
  have pcs: "\<forall>i < length (procs w). procs w ! i = At_wait \<or> procs w ! i = At_incAuto"
    using assms(2) by (simp add: spinning_def list_all_length)
  show ?thesis
  proof (cases a)
    case Go_Call
    then show ?thesis using assms by (auto simp: step_def spinning_def)
  next
    case (Select i)
    then show ?thesis using assms nr
      by (auto simp: world_defs closed_forms spinning_def list_all_update split: if_splits)
  next
    case (IncAuto i f)
    then show ?thesis using assms nr
      by (auto simp: world_defs closed_forms spinning_def list_all_update split: if_splits)
  next
    case Do_Release
    then show ?thesis using assms nr
      by (auto simp: world_defs closed_forms spinning_def split: if_splits)
  next
    case Gc_test
    then show ?thesis using assms by (auto simp: step_def spinning_def split: if_splits)
  next
    case Gc_pass
    then show ?thesis using assms nr
      by (auto simp: world_defs closed_forms spinning_def Let_def split: if_splits)
  qed (use assms(1) pcs in \<open>auto simp: step_def pc_at_def split: if_splits pc.splits option.splits\<close>)
qed

lemma run_spinning:
  "run acts w = Some w' \<Longrightarrow> spinning w \<Longrightarrow> \<not> released (pool w') \<Longrightarrow> spinning w'"
proof (induction acts arbitrary: w)
  case Nil
  then show ?case by simp
next
  case (Cons a acts)
  then obtain w1 where s: "step a w = Some w1" and r: "run acts w1 = Some w'"
    by (auto split: option.splits)
  have "\<not> released (pool w1)" using r Cons.prems(3) run_released_mono by blast
  from Cons.IH [OF r step_spinning [OF s Cons.prems(2) this] Cons.prems(3)] show ?case .
qed

lemma spinning_steps:
  assumes "spinning w" and "0 \<le> maxIdle (pool w)" and "\<not> released (pool w)"
    and "i < length (procs w)"
  shows "(procs w ! i = At_wait \<and>
            step (Select i) w = Some (w\<lparr>procs := (procs w)[i := At_incAuto]\<rparr>)) \<or>
         (procs w ! i = At_incAuto \<and>
            (\<forall>fres. step (IncAuto i fres) w = Some (w\<lparr>procs := (procs w)[i := At_wait]\<rparr>)))"
proof -
  have "procs w ! i = At_wait \<or> procs w ! i = At_incAuto"
    using assms(1,4) by (simp add: spinning_def list_all_length)
  then show ?thesis
    using assms by (auto simp: spinning_def world_defs closed_forms)
qed

lemma run_maxIdle: "run acts w = Some w' \<Longrightarrow> maxIdle (pool w') = maxIdle (pool w)"
proof (induction acts arbitrary: w)
  case Nil
  then show ?case by simp
next
  case (Cons a acts)
  then obtain w1 where s: "step a w = Some w1" and r: "run acts w1 = Some w'"
    by (auto split: option.splits)
  have "maxIdle (pool w1) = maxIdle (pool w)"
    using s
    by (cases a)
      (auto simp: world_defs closed_forms Let_def
        split: if_splits pc.splits option.splits list.splits sum.splits)
  with Cons.IH [OF r] show ?case by simp
qed

text \<open>
  C10. On a pool built with capacity 0, in every world the program reaches while
  \<open>released\<close> is not set, every goroutine inside \<open>Call\<close> is at the label \<open>wait\<close> or about
  to call \<open>incAuto\<close>: none has returned. No event was recorded, so neither the factory
  nor any callback was ever called. When \<open>maxIdle\<close> is not negative, such a goroutine
  can always take its next step, which leads from \<open>wait\<close> to \<open>incAuto\<close> (the receive finds
  the channel empty) and from \<open>incAuto\<close> back to \<open>wait\<close> (a no-op, whatever the factory
  would answer), leaving the struct as it was: the loop spins for ever.
\<close>

theorem Call_spins_at_capacity_zero:
  assumes "ClassicPool 0 m = Some w0" and "run acts w0 = Some w" and "\<not> released (pool w)"
  shows "list_all (\<lambda>c. c = At_wait \<or> c = At_incAuto) (procs w) \<and>
         events (pool w) = [] \<and>
         (0 \<le> m \<longrightarrow>
            (\<forall>i < length (procs w).
               (procs w ! i = At_wait \<and>
                  step (Select i) w = Some (w\<lparr>procs := (procs w)[i := At_incAuto]\<rparr>)) \<or>
               (procs w ! i = At_incAuto \<and>
                  (\<forall>fres. step (IncAuto i fres) w =
                     Some (w\<lparr>procs := (procs w)[i := At_wait]\<rparr>)))))"
proof -
  have s0: "spinning w0" and m0: "maxIdle (pool w0) = m"
    using assms(1) by (auto simp: ClassicPool_def spinning_def split: if_splits)
  have s: "spinning w" using run_spinning [OF assms(2) s0 assms(3)] .
  have m: "maxIdle (pool w) = m" using run_maxIdle [OF assms(2)] m0 by simp
  show ?thesis
    using s spinning_steps [OF s _ assms(3)] m by (auto simp: spinning_def)
qed

theorem Call_spins_at_capacity_zero_witness:
  "list_all (\<lambda>c. c = At_wait \<or> c = At_incAuto)
     (procs (the (Option.bind (ClassicPool 0 0)
        (run [Go_Call, Select 0, IncAuto 0 (Inr 3), Gc_test, Gc_pass, Go_Call, Select 0])))) \<and>
   events (pool (the (Option.bind (ClassicPool 0 0)
        (run [Go_Call, Select 0, IncAuto 0 (Inr 3), Gc_test, Gc_pass, Go_Call, Select 0])))) = []"
proof -
  let ?init = "\<lparr>pool = \<lparr>srcs = [], srcs_closed = False, capacity = 0, maxIdle = 0,
                 len = 0, released = False, writer = False, readers = 0, events = []\<rparr>,
               procs = [], reaper = Gc_top, crashed = False\<rparr>"
  let ?mid = "\<lparr>pool = \<lparr>srcs = [], srcs_closed = False, capacity = 0, maxIdle = 0,
                 len = 0, released = False, writer = False, readers = 0, events = []\<rparr>,
               procs = [At_incAuto, At_wait], reaper = Gc_top, crashed = False\<rparr>"
  have a: "ClassicPool 0 0 = Some ?init" by (simp add: ClassicPool_def)
  have b: "run [Go_Call, Select 0, IncAuto 0 (Inr 3), Gc_test, Gc_pass, Go_Call, Select 0] ?init =
             Some ?mid"
    by (simp add: world_defs closed_forms)
  have c: "\<not> released (pool ?mid)" by simp
  from Call_spins_at_capacity_zero [OF a b c] show ?thesis using a b by simp
qed

subsection \<open>Where a resource is\<close>


lemma made_map_Release [simp]: "made (map Src_Release xs) = []"
  by (induction xs) auto


lemma goto_sel [simp]:
  "pool (goto i c q w) = q" "procs (goto i c q w) = (procs w)[i := c]"
  "crashed (goto i c q w) = crashed w" "reaper (goto i c q w) = reaper w"
  by (simp_all add: goto_def)





lemma crash_sel [simp]:
  "pool (crash q w) = q" "procs (crash q w) = procs w" "crashed (crash q w)"
  by (simp_all add: crash_def)

lemma occ_crash [simp]: "occ x (crash q w) = count_list (srcs q) x + sum_list (map (has x) (procs w))"
  by (simp add: occ_def)


















lemma count_list_map_Release:
  "r \<notin> set xs \<Longrightarrow> count_list (map Src_Release xs) (Src_Release r) = 0"
  by (induction xs) auto

lemma Callback_notin_map_Release [simp]: "Callback_on r \<notin> set (map Src_Release xs)"
  by auto





















subsection \<open>A resource found unusable\<close>




subsection \<open>Call and recover once Release has been called\<close>

text \<open>
  Both \<open>Call\<close> and \<open>recover\<close> start with a guard on \<open>released\<close>, read under the read
  lock: \<open>Call\<close> returns \<open>releasedError\<close>, \<open>recover\<close> returns without touching the
  resource. The two lemmas say what the guards do on a struct whose flag is set.
\<close>

lemma Call_wait_released: "released p \<Longrightarrow> Call_wait p = (Pool_released, p)"
  by (simp add: Call_wait_closed)

lemma recover_released: "released p \<Longrightarrow> recover r p = Returns () p"
  by (simp add: recover_def recover_enter_closed)

text \<open>
  But the guards are never reached with the flag set. \<open>Release\<close> sets the flag under
  the exclusive lock and then blocks with the lock held (\<open>Release_closed\<close>), so in
  every world the program reaches, \<open>released\<close> implies that a writer holds the lock
  (\<open>pool_inv\<close>), and it stays so. A goroutine at the head of \<open>Call\<close> or of \<open>recover\<close>
  then waits for the read lock for ever.
\<close>

lemma step_stays_wait:
  assumes "step a w = Some w'" and "writer (pool w)" and "pc_at w i = Some At_wait"
  shows "pc_at w' i = Some At_wait"
  using assms
  by (cases a)
    (auto simp: step_def pc_at_def goto_def crash_def can_Lock_def can_RLock_def
      nth_list_update nth_append
      split: if_splits pc.splits option.splits result.splits prod.splits bool.splits)

lemma step_stays_recover:
  assumes "step a w = Some w'" and "writer (pool w)" and "pc_at w i = Some (At_recover r e)"
  shows "pc_at w' i = Some (At_recover r e)"
  using assms
  by (cases a)
    (auto simp: step_def pc_at_def goto_def crash_def can_Lock_def can_RLock_def
      nth_list_update nth_append
      split: if_splits pc.splits option.splits result.splits prod.splits bool.splits)

lemma step_no_reset:
  assumes "step a w = Some w'" and "pool_inv w" and "writer (pool w)"
  shows "\<exists>evs. events (pool w') = events (pool w) @ evs \<and>
           (\<forall>x. Src_Reset x \<notin> set evs \<and> Chan_send x \<notin> set evs)"
proof (cases a)
  case (Send i)
  then show ?thesis
    using assms(1) pool_inv_writer_no_send [OF assms(2,3), of i]
    by (auto simp: step_def pc_at_def split: if_splits pc.splits)
qed (use assms(1,3) in \<open>auto simp: step_def pc_at_def goto_def crash_def can_Lock_def
      can_RLock_def emit_def del_Release_def split: if_splits pc.splits option.splits\<close>)

lemma run_stuck:
  "run acts w = Some w' \<Longrightarrow> pool_inv w \<Longrightarrow> released (pool w) \<Longrightarrow>
   pool_inv w' \<and> released (pool w') \<and>
   (pc_at w i = Some At_wait \<longrightarrow> pc_at w' i = Some At_wait) \<and>
   (pc_at w i = Some (At_recover r e) \<longrightarrow> pc_at w' i = Some (At_recover r e)) \<and>
   (\<exists>evs. events (pool w') = events (pool w) @ evs \<and>
      (\<forall>x. Src_Reset x \<notin> set evs \<and> Chan_send x \<notin> set evs))"
proof (induction acts arbitrary: w)
  case Nil
  then show ?case by simp
next
  case (Cons a acts)
  then obtain w1 where s: "step a w = Some w1" and r: "run acts w1 = Some w'"
    by (auto split: option.splits)
  from pool_invD [OF Cons.prems(2)] Cons.prems(3) have wr: "writer (pool w)" by simp
  have inv1: "pool_inv w1" using step_pool_inv [OF s Cons.prems(2)] .
  have rel1: "released (pool w1)" using step_released_mono [OF s Cons.prems(3)] .
  from step_no_reset [OF s Cons.prems(2) wr] obtain evs1 where
    e1: "events (pool w1) = events (pool w) @ evs1"
        "\<forall>x. Src_Reset x \<notin> set evs1 \<and> Chan_send x \<notin> set evs1" by blast
  from Cons.IH [OF r inv1 rel1] obtain evs2 where
    ih: "pool_inv w'" "released (pool w')"
        "pc_at w1 i = Some At_wait \<longrightarrow> pc_at w' i = Some At_wait"
        "pc_at w1 i = Some (At_recover r e) \<longrightarrow> pc_at w' i = Some (At_recover r e)"
        "events (pool w') = events (pool w1) @ evs2"
        "\<forall>x. Src_Reset x \<notin> set evs2 \<and> Chan_send x \<notin> set evs2" by blast
  have "events (pool w') = events (pool w) @ (evs1 @ evs2)"
    "\<forall>x. Src_Reset x \<notin> set (evs1 @ evs2) \<and> Chan_send x \<notin> set (evs1 @ evs2)"
    using e1 ih(5,6) by simp_all
  then have ev: "\<exists>evs. events (pool w') = events (pool w) @ evs \<and>
      (\<forall>x. Src_Reset x \<notin> set evs \<and> Chan_send x \<notin> set evs)" by blast
  show ?case
    using ih(1-4) ev step_stays_wait [OF s wr] step_stays_recover [OF s wr] by blast
qed

text \<open>
  C3. The claim is that after \<open>Release\<close> every call of \<open>Call\<close> returns \<open>releasedError\<close>
  at once. In the code it does not return at all. Take any world the program reaches
  from \<open>ClassicPool\<close> in which \<open>released\<close> is set, and any continuation from there.
  At its end no goroutine can take the first step of \<open>Call\<close>: a call that starts now
  cannot proceed, and a goroutine that was at the label \<open>wait\<close> when the flag was set is
  still there. Same defect as C2: the loop of \<open>Release\<close> receives once too often and
  never unlocks.
\<close>

theorem Call_blocks_after_Release:
  assumes "ClassicPool c m = Some w0" and "run acts w0 = Some w" and "released (pool w)"
    and "run acts' w = Some w'"
  shows "step (Select i) w' = None \<and>
         run [Go_Call, Select (length (procs w'))] w' = None \<and>
         (pc_at w i = Some At_wait \<longrightarrow> pc_at w' i = Some At_wait)"
proof -
  have inv: "pool_inv w" using run_pool_inv [OF assms(2) ClassicPool_pool_inv [OF assms(1)]] .
  from run_stuck [OF assms(4) inv assms(3), of i]
  have inv': "pool_inv w'" and rel': "released (pool w')"
    and st: "pc_at w i = Some At_wait \<longrightarrow> pc_at w' i = Some At_wait" by blast+
  from pool_invD [OF inv'] rel' have wr: "writer (pool w')" and nc: "\<not> crashed w'" by simp_all
  have 1: "step (Select i) w' = None" using wr by (simp add: step_def can_RLock_def)
  have 2: "run [Go_Call, Select (length (procs w'))] w' = None"
    using wr nc by (simp add: step_def can_RLock_def)
  show ?thesis using 1 2 st by blast
qed

theorem Call_blocks_after_Release_witness:
  "step (Select 0) (the (Option.bind (ClassicPool 2 1)
      (run [Go_Call, Select 0, IncAuto 0 (Inr 7), Do_Release, Go_Call]))) = None \<and>
   Option.bind (ClassicPool 2 1)
      (run [Go_Call, Select 0, IncAuto 0 (Inr 7), Do_Release, Go_Call, Select 1]) = None"
proof -
  let ?init = "\<lparr>pool = \<lparr>srcs = [], srcs_closed = False, capacity = 2, maxIdle = 1,
                 len = 0, released = False, writer = False, readers = 0, events = []\<rparr>,
               procs = [], reaper = Gc_top, crashed = False\<rparr>"
  let ?mid = "\<lparr>pool = \<lparr>srcs = [], srcs_closed = False, capacity = 2, maxIdle = 1,
                 len = 1, released = True, writer = True, readers = 0,
                 events = [Factory_ret (Inr 7), Chan_send 7, Src_Release 7]\<rparr>,
               procs = [At_wait], reaper = Gc_top, crashed = False\<rparr>"
  let ?fin = "\<lparr>pool = \<lparr>srcs = [], srcs_closed = False, capacity = 2, maxIdle = 1,
                 len = 1, released = True, writer = True, readers = 0,
                 events = [Factory_ret (Inr 7), Chan_send 7, Src_Release 7]\<rparr>,
               procs = [At_wait, At_wait], reaper = Gc_top, crashed = False\<rparr>"
  have a: "ClassicPool 2 1 = Some ?init" by (simp add: ClassicPool_def)
  have b: "run [Go_Call, Select 0, IncAuto 0 (Inr 7), Do_Release] ?init = Some ?mid"
    by (simp add: world_defs closed_forms)
  have c: "released (pool ?mid)" by simp
  have d: "run [Go_Call] ?mid = Some ?fin" by (simp add: world_defs)
  have e: "run [Go_Call, Select 0, IncAuto 0 (Inr 7), Do_Release, Go_Call] ?init = Some ?fin"
    by (simp add: world_defs closed_forms)
  from Call_blocks_after_Release [OF a b c d, of 0]
  have "step (Select 0) ?fin = None" "run [Go_Call, Select (length (procs ?fin))] ?fin = None"
    by blast+
  then show ?thesis using a e by (simp add: world_defs closed_forms)
qed



end
